theory Spec2Isabelle
  imports Main
begin

section \<open>The board of Projet\_connect4\_AI.py\<close>

text \<open>
  \<^verbatim>\<open>Board.grid = np.zeros((7, 6), dtype=int)\<close> is an array of 7 columns of 6 rows of
  integers, read as \<^verbatim>\<open>grid[column][row]\<close> with row 0 at the bottom. The model is the
  function from column and row to the cell. The methods of the class read it only at
  columns 0..6 and rows 0..5; a column index handed in by a caller is checked, and is an
  \<open>IndexError\<close> outside the array, as numpy raises it. Column and row indices are natural
  numbers: the program never forms a negative one. Cell values and player numbers are
  Python integers.
\<close>

type_synonym grid = "nat \<Rightarrow> nat \<Rightarrow> int"

datatype error = IndexError

definition empty_grid :: grid where
  "empty_grid = (\<lambda>column row. 0)"

subsection \<open>eval\_window and eval\<close>

definition eval_window :: "int list \<Rightarrow> int \<Rightarrow> int" where
  "eval_window window player =
     (let opponent = 3 - player in
      if count_list window player = 4 then 10000
      else if count_list window opponent = 4 then - 10000
      else if count_list window player = 3 \<and> count_list window 0 = 1 then 20
      else if count_list window opponent = 3 \<and> count_list window 0 = 1 then - 20
      else 0)"

definition evaluation_table :: "int list list" where
  "evaluation_table =
     [[3, 4, 5, 7, 5, 4, 3],
      [4, 6, 8, 10, 8, 6, 4],
      [5, 8, 11, 13, 11, 8, 5],
      [5, 8, 11, 13, 11, 8, 5],
      [4, 6, 8, 10, 8, 6, 4],
      [3, 4, 5, 7, 5, 4, 3]]"

text \<open>
  The four scans of \<^verbatim>\<open>eval\<close> and its last loop, each a nested \<^verbatim>\<open>for\<close> that adds to
  \<^verbatim>\<open>score\<close>: the sum over the outer range of the sum over the inner range.
\<close>

definition eval_horizontal :: "grid \<Rightarrow> int \<Rightarrow> int" where
  "eval_horizontal g player =
     (\<Sum>row\<leftarrow>[0..<6]. \<Sum>col\<leftarrow>[0..<4].
        eval_window (map (\<lambda>c. g c row) [col..<col + 4]) player)"

definition eval_vertical :: "grid \<Rightarrow> int \<Rightarrow> int" where
  "eval_vertical g player =
     (\<Sum>col\<leftarrow>[0..<7]. \<Sum>row\<leftarrow>[0..<3].
        eval_window (map (\<lambda>r. g col r) [row..<row + 4]) player)"

definition eval_first_diagonal :: "grid \<Rightarrow> int \<Rightarrow> int" where
  "eval_first_diagonal g player =
     (\<Sum>col\<leftarrow>[0..<4]. \<Sum>row\<leftarrow>[0..<3].
        eval_window (map (\<lambda>i. g (col + i) (row + i)) [0..<4]) player)"

definition eval_second_diagonal :: "grid \<Rightarrow> int \<Rightarrow> int" where
  "eval_second_diagonal g player =
     (\<Sum>col\<leftarrow>[0..<4]. \<Sum>row\<leftarrow>[3..<6].
        eval_window (map (\<lambda>i. g (col + i) (row - i)) [0..<4]) player)"

definition eval_central :: "grid \<Rightarrow> int \<Rightarrow> int" where
  "eval_central g player =
     (let opponent = 3 - player in
      \<Sum>row\<leftarrow>[0..<6]. \<Sum>col\<leftarrow>[0..<7].
        (if g col row = player then evaluation_table ! row ! col
         else if g col row = opponent then - (evaluation_table ! row ! col)
         else 0))"

definition eval :: "grid \<Rightarrow> int \<Rightarrow> int" where
  "eval g player =
     0 + eval_horizontal g player + eval_vertical g player
       + eval_first_diagonal g player + eval_second_diagonal g player
       + eval_central g player"

subsection \<open>get\_possible\_moves, add\_disk, column\_filled\<close>

definition get_possible_moves :: "grid \<Rightarrow> nat list" where
  "get_possible_moves g =
     (let possible_moves = [];
          possible_moves = (if g 3 5 = 0 then possible_moves @ [3] else possible_moves)
      in foldl (\<lambda>possible_moves shift_from_center.
                  let possible_moves =
                        (if g (3 + shift_from_center) 5 = 0
                         then possible_moves @ [3 + shift_from_center] else possible_moves)
                  in if g (3 - shift_from_center) 5 = 0
                     then possible_moves @ [3 - shift_from_center] else possible_moves)
               possible_moves [1..<4])"

text \<open>
  \<^verbatim>\<open>add_disk(column, player, update_display=False)\<close>: the loop over \<^verbatim>\<open>range(6)\<close> writes
  the first empty cell of the column and breaks; when no cell is empty the loop ends
  without writing, and with \<^verbatim>\<open>update_display\<close> false nothing follows the loop.
\<close>

fun add_disk_loop :: "grid \<Rightarrow> nat \<Rightarrow> int \<Rightarrow> nat list \<Rightarrow> grid" where
  "add_disk_loop g column player [] = g"
| "add_disk_loop g column player (j # js) =
     (if g column j = 0 then g(column := (g column)(j := player))
      else add_disk_loop g column player js)"

definition add_disk :: "grid \<Rightarrow> nat \<Rightarrow> int \<Rightarrow> error + grid" where
  "add_disk g column player =
     (if column < 7 then Inr (add_disk_loop g column player [0..<6]) else Inl IndexError)"

definition column_filled :: "grid \<Rightarrow> nat \<Rightarrow> error + bool" where
  "column_filled g column = (if column < 7 then Inr (g column 5 \<noteq> 0) else Inl IndexError)"

subsection \<open>check\_victory\<close>

text \<open>
  Three nested scans, each returning \<^verbatim>\<open>True\<close> at the first hit. A Python chain
  \<^verbatim>\<open>a == b == c == d != 0\<close> is the conjunction of its links.
\<close>

definition check_victory :: "grid \<Rightarrow> bool" where
  "check_victory g =
     (if list_ex (\<lambda>line. list_ex (\<lambda>horizontal_shift.
            g horizontal_shift line = g (horizontal_shift + 1) line
          \<and> g (horizontal_shift + 1) line = g (horizontal_shift + 2) line
          \<and> g (horizontal_shift + 2) line = g (horizontal_shift + 3) line
          \<and> g (horizontal_shift + 3) line \<noteq> 0) [0..<4]) [0..<6]
      then True
      else if list_ex (\<lambda>column. list_ex (\<lambda>vertical_shift.
            g column vertical_shift = g column (vertical_shift + 1)
          \<and> g column (vertical_shift + 1) = g column (vertical_shift + 2)
          \<and> g column (vertical_shift + 2) = g column (vertical_shift + 3)
          \<and> g column (vertical_shift + 3) \<noteq> 0) [0..<3]) [0..<7]
      then True
      else if list_ex (\<lambda>horizontal_shift. list_ex (\<lambda>vertical_shift.
            (g horizontal_shift vertical_shift = g (horizontal_shift + 1) (vertical_shift + 1)
           \<and> g (horizontal_shift + 1) (vertical_shift + 1)
               = g (horizontal_shift + 2) (vertical_shift + 2)
           \<and> g (horizontal_shift + 2) (vertical_shift + 2)
               = g (horizontal_shift + 3) (vertical_shift + 3)
           \<and> g (horizontal_shift + 3) (vertical_shift + 3) \<noteq> 0)
          \<or> (g horizontal_shift (5 - vertical_shift)
               = g (horizontal_shift + 1) (4 - vertical_shift)
           \<and> g (horizontal_shift + 1) (4 - vertical_shift)
               = g (horizontal_shift + 2) (3 - vertical_shift)
           \<and> g (horizontal_shift + 2) (3 - vertical_shift)
               = g (horizontal_shift + 3) (2 - vertical_shift)
           \<and> g (horizontal_shift + 3) (2 - vertical_shift) \<noteq> 0)) [0..<3]) [0..<4]
      then True
      else False)"

section \<open>The search\<close>

text \<open>
  Scores are Python numbers: the integers that \<^verbatim>\<open>eval\<close> returns, and
  \<^verbatim>\<open>float('-inf')\<close> and \<^verbatim>\<open>float('inf')\<close>, which Python compares exactly with integers.
\<close>

datatype score = NegInf | Fin int | PosInf

instantiation score :: linorder
begin

fun less_eq_score :: "score \<Rightarrow> score \<Rightarrow> bool" where
  "less_eq_score NegInf y = True"
| "less_eq_score (Fin a) NegInf = False"
| "less_eq_score (Fin a) (Fin b) = (a \<le> b)"
| "less_eq_score (Fin a) PosInf = True"
| "less_eq_score PosInf PosInf = True"
| "less_eq_score PosInf y = False"

definition less_score :: "score \<Rightarrow> score \<Rightarrow> bool" where
  "less_score x y = (x \<le> y \<and> \<not> y \<le> x)"

instance
proof
  fix x y z :: score
  show "(x < y) = (x \<le> y \<and> \<not> y \<le> x)" by (simp add: less_score_def)
  show "x \<le> x" by (cases x) simp_all
  show "x \<le> y \<Longrightarrow> y \<le> z \<Longrightarrow> x \<le> z" by (cases x; cases y; cases z) simp_all
  show "x \<le> y \<Longrightarrow> y \<le> x \<Longrightarrow> x = y" by (cases x; cases y) simp_all
  show "x \<le> y \<or> y \<le> x" by (cases x; cases y) auto
qed

end

text \<open>
  The two \<^verbatim>\<open>for move in possible_moves\<close> loops of \<^verbatim>\<open>alpha_beta\<close>, with their
  \<^verbatim>\<open>break\<close>. \<open>descend child alpha beta\<close> is the recursive call on the child board with
  the current bounds; \<open>rest\<close> are the moves not yet tried. The child board is
  \<^verbatim>\<open>board.copy()\<close> after \<^verbatim>\<open>add_disk\<close>: a copy owns its grid, so the model passes the
  grid value.
\<close>

fun max_loop ::
  "(grid \<Rightarrow> score \<Rightarrow> score \<Rightarrow> error + score \<times> nat option) \<Rightarrow> grid \<Rightarrow> int \<Rightarrow>
   score \<Rightarrow> score \<Rightarrow> nat list \<Rightarrow> score \<Rightarrow> nat option \<Rightarrow> error + score \<times> nat option" where
  "max_loop descend board current_player alpha beta [] max_value best_move =
     Inr (max_value, best_move)"
| "max_loop descend board current_player alpha beta (move # rest) max_value best_move =
     (case add_disk board move current_player of
        Inl e \<Rightarrow> Inl e
      | Inr child_board \<Rightarrow>
          (case descend child_board alpha beta of
             Inl e \<Rightarrow> Inl e
           | Inr (v, _) \<Rightarrow>
               (let (max_value, best_move) =
                      (if v > max_value then (v, Some move) else (max_value, best_move));
                    alpha = max alpha v
                in if beta \<le> alpha then Inr (max_value, best_move)
                   else max_loop descend board current_player alpha beta rest
                          max_value best_move)))"

fun min_loop ::
  "(grid \<Rightarrow> score \<Rightarrow> score \<Rightarrow> error + score \<times> nat option) \<Rightarrow> grid \<Rightarrow> int \<Rightarrow>
   score \<Rightarrow> score \<Rightarrow> nat list \<Rightarrow> score \<Rightarrow> nat option \<Rightarrow> error + score \<times> nat option" where
  "min_loop descend board current_player alpha beta [] min_value best_move =
     Inr (min_value, best_move)"
| "min_loop descend board current_player alpha beta (move # rest) min_value best_move =
     (let opponent_player = 3 - current_player in
      case add_disk board move opponent_player of
        Inl e \<Rightarrow> Inl e
      | Inr child_board \<Rightarrow>
          (case descend child_board alpha beta of
             Inl e \<Rightarrow> Inl e
           | Inr (v, _) \<Rightarrow>
               (let (min_value, best_move) =
                      (if v < min_value then (v, Some move) else (min_value, best_move));
                    beta = min beta v
                in if beta \<le> alpha then Inr (min_value, best_move)
                   else min_loop descend board current_player alpha beta rest
                          min_value best_move)))"

text \<open>
  \<^verbatim>\<open>alpha_beta(board, turn, depth, alpha, beta, current_player, maximizing_player)\<close>.
  \<open>depth\<close> is the level the caller chose, one of 1..42, counted down to 0: a natural
  number. \<^verbatim>\<open>get_possible_moves()[0]\<close> is read where the list has one element.
\<close>

fun alpha_beta ::
  "grid \<Rightarrow> int \<Rightarrow> nat \<Rightarrow> score \<Rightarrow> score \<Rightarrow> int \<Rightarrow> bool \<Rightarrow> error + score \<times> nat option" where
  "alpha_beta board turn depth alpha beta current_player maximizing_player =
     (if length (get_possible_moves board) = 1
      then Inr (Fin (eval board current_player), Some (get_possible_moves board ! 0))
      else if depth = 0 \<or> check_victory board
      then Inr (Fin (eval board current_player), None)
      else
        (let possible_moves = get_possible_moves board;
             best_move = None
         in if maximizing_player
            then max_loop (\<lambda>child_board alpha beta.
                     alpha_beta child_board turn (depth - 1) alpha beta current_player False)
                   board current_player alpha beta possible_moves NegInf best_move
            else min_loop (\<lambda>child_board alpha beta.
                     alpha_beta child_board turn (depth - 1) alpha beta current_player True)
                   board current_player alpha beta possible_moves PosInf best_move))"

declare alpha_beta.simps [simp del]

section \<open>Board objects and their grids\<close>

text \<open>
  \<^verbatim>\<open>grid\<close> is assigned in the class body, so it is an attribute of the class
  \<^verbatim>\<open>Board\<close>: one array, made when the module is loaded. \<^verbatim>\<open>Board()\<close> runs no
  \<^verbatim>\<open>__init__\<close> and gives the new object no attribute of its own, so \<^verbatim>\<open>self.grid\<close>
  finds the class attribute. Only \<^verbatim>\<open>copy\<close> assigns \<^verbatim>\<open>new_board.grid\<close>, an attribute
  of that one object, holding a new array. \<^verbatim>\<open>add_disk\<close> writes into the array that
  \<^verbatim>\<open>self.grid\<close> finds.

  The store holds the arrays by address, the address in the class attribute, and for
  each Board object the address in its own attribute when it has one. Objects and
  addresses are numbered in the order of their creation.
\<close>

record store =
  arrays :: "nat \<Rightarrow> grid"
  next_array :: nat
  class_grid :: nat
  instance_grid :: "nat \<Rightarrow> nat option"
  next_board :: nat

definition initial_store :: store where
  "initial_store =
     \<lparr>arrays = (\<lambda>a. empty_grid), next_array = 1, class_grid = 0,
      instance_grid = (\<lambda>b. None), next_board = 0\<rparr>"

definition Board_new :: "store \<Rightarrow> nat \<times> store" where
  "Board_new s =
     (next_board s,
      s\<lparr>instance_grid := (instance_grid s)(next_board s := None),
        next_board := Suc (next_board s)\<rparr>)"

definition grid_ref :: "store \<Rightarrow> nat \<Rightarrow> nat" where
  "grid_ref s self = (case instance_grid s self of Some a \<Rightarrow> a | None \<Rightarrow> class_grid s)"

definition self_grid :: "store \<Rightarrow> nat \<Rightarrow> grid" where
  "self_grid s self = arrays s (grid_ref s self)"

definition Board_copy :: "store \<Rightarrow> nat \<Rightarrow> nat \<times> store" where
  "Board_copy s self =
     (let (new_board, s) = Board_new s;
          a = next_array s;
          s = s\<lparr>arrays := (arrays s)(a := self_grid s self), next_array := Suc a\<rparr>;
          s = s\<lparr>instance_grid := (instance_grid s)(new_board := Some a)\<rparr>
      in (new_board, s))"

definition Board_add_disk :: "store \<Rightarrow> nat \<Rightarrow> nat \<Rightarrow> int \<Rightarrow> error + store" where
  "Board_add_disk s self column player =
     (case add_disk (self_grid s self) column player of
        Inl e \<Rightarrow> Inl e
      | Inr g \<Rightarrow> Inr (s\<lparr>arrays := (arrays s)(grid_ref s self := g)\<rparr>))"

definition Board_get_possible_moves :: "store \<Rightarrow> nat \<Rightarrow> nat list" where
  "Board_get_possible_moves s self = get_possible_moves (self_grid s self)"

definition Board_eval :: "store \<Rightarrow> nat \<Rightarrow> int \<Rightarrow> int" where
  "Board_eval s self player = eval (self_grid s self) player"

definition Board_check_victory :: "store \<Rightarrow> nat \<Rightarrow> bool" where
  "Board_check_victory s self = check_victory (self_grid s self)"

text \<open>
  Every address in use has been allocated: the invariant of the store that makes the
  array of a copy a new one.
\<close>

definition wf_store :: "store \<Rightarrow> bool" where
  "wf_store s = (class_grid s < next_array s
     \<and> (\<forall>b a. instance_grid s b = Some a \<longrightarrow> a < next_array s))"

section \<open>What the specification says, as definitions\<close>

subsection \<open>Windows of four cells\<close>

text \<open>
  A window is an orientation and a start cell; its cells are the start and the next three
  along the orientation's direction. The windows of the board are those whose four cells
  are all on the 7 by 6 grid. Cells are pairs of integers (column, row), so that a
  descending diagonal that would leave the grid does leave it.
\<close>

datatype orientation = Horizontal | Vertical | Diagonal_up | Diagonal_down

fun direction :: "orientation \<Rightarrow> int \<times> int" where
  "direction Horizontal = (1, 0)"
| "direction Vertical = (0, 1)"
| "direction Diagonal_up = (1, 1)"
| "direction Diagonal_down = (1, - 1)"

definition in_grid :: "int \<times> int \<Rightarrow> bool" where
  "in_grid cell = (0 \<le> fst cell \<and> fst cell < 7 \<and> 0 \<le> snd cell \<and> snd cell < 6)"

definition window_cells :: "orientation \<Rightarrow> int \<times> int \<Rightarrow> (int \<times> int) list" where
  "window_cells ori start =
     map (\<lambda>i. (fst start + i * fst (direction ori), snd start + i * snd (direction ori)))
       [0, 1, 2, 3]"

definition all_windows :: "(orientation \<times> int \<times> int) set" where
  "all_windows = {(ori, start). list_all in_grid (window_cells ori start)}"

definition cell_at :: "grid \<Rightarrow> int \<times> int \<Rightarrow> int" where
  "cell_at g cell = g (nat (fst cell)) (nat (snd cell))"

text \<open>Four contiguous cells in a line, all equal and all non-empty.\<close>

definition four_in_a_row :: "grid \<Rightarrow> bool" where
  "four_in_a_row g =
     (\<exists>(ori, start) \<in> all_windows. \<exists>p. p \<noteq> 0 \<and>
        list_all (\<lambda>cell. cell_at g cell = p) (window_cells ori start))"

subsection \<open>The evaluation, as the specification words it\<close>

text \<open>
  The score of one window: all four cells the player's, all four the opponent's, three
  the player's with the fourth empty, three the opponent's with the fourth empty, or
  anything else.
\<close>

definition window_score :: "int list \<Rightarrow> int \<Rightarrow> int" where
  "window_score cells p =
     (if list_all (\<lambda>x. x = p) cells then 10000
      else if list_all (\<lambda>x. x = 3 - p) cells then - 10000
      else if (\<exists>i<4. cells ! i = 0 \<and> (\<forall>j<4. j \<noteq> i \<longrightarrow> cells ! j = p)) then 20
      else if (\<exists>i<4. cells ! i = 0 \<and> (\<forall>j<4. j \<noteq> i \<longrightarrow> cells ! j = 3 - p)) then - 20
      else 0)"

definition position_weight :: "int \<times> int \<Rightarrow> int" where
  "position_weight cell = evaluation_table ! nat (snd cell) ! nat (fst cell)"

definition positional_bonus :: "grid \<Rightarrow> int \<Rightarrow> int \<times> int \<Rightarrow> int" where
  "positional_bonus g p cell =
     (if cell_at g cell = p then position_weight cell else 0)
     - (if cell_at g cell = 3 - p then position_weight cell else 0)"

definition spec_eval :: "grid \<Rightarrow> int \<Rightarrow> int" where
  "spec_eval g p =
     (\<Sum>(ori, start) \<in> all_windows. window_score (map (cell_at g) (window_cells ori start)) p)
     + (\<Sum>cell \<in> {cell. in_grid cell}. positional_bonus g p cell)"

subsection \<open>The occupied height of a column\<close>

definition column_height :: "grid \<Rightarrow> nat \<Rightarrow> nat" where
  "column_height g column = length (filter (\<lambda>row. g column row \<noteq> 0) [0..<6])"

subsection \<open>Exhaustive search\<close>

text \<open>
  The recursion of \<^verbatim>\<open>alpha_beta\<close> with the two \<^verbatim>\<open>break\<close> statements removed: the same
  terminal cases, the same order of moves, the same strict comparison for the best move.
  Without the cutoffs the bounds \<^verbatim>\<open>alpha\<close> and \<^verbatim>\<open>beta\<close> are never read, and are left
  out.
\<close>

fun max_loop_exhaustive ::
  "(grid \<Rightarrow> error + score \<times> nat option) \<Rightarrow> grid \<Rightarrow> int \<Rightarrow>
   nat list \<Rightarrow> score \<Rightarrow> nat option \<Rightarrow> error + score \<times> nat option" where
  "max_loop_exhaustive descend board current_player [] max_value best_move =
     Inr (max_value, best_move)"
| "max_loop_exhaustive descend board current_player (move # rest) max_value best_move =
     (case add_disk board move current_player of
        Inl e \<Rightarrow> Inl e
      | Inr child_board \<Rightarrow>
          (case descend child_board of
             Inl e \<Rightarrow> Inl e
           | Inr (v, _) \<Rightarrow>
               (let (max_value, best_move) =
                      (if v > max_value then (v, Some move) else (max_value, best_move))
                in max_loop_exhaustive descend board current_player rest
                     max_value best_move)))"

fun min_loop_exhaustive ::
  "(grid \<Rightarrow> error + score \<times> nat option) \<Rightarrow> grid \<Rightarrow> int \<Rightarrow>
   nat list \<Rightarrow> score \<Rightarrow> nat option \<Rightarrow> error + score \<times> nat option" where
  "min_loop_exhaustive descend board current_player [] min_value best_move =
     Inr (min_value, best_move)"
| "min_loop_exhaustive descend board current_player (move # rest) min_value best_move =
     (let opponent_player = 3 - current_player in
      case add_disk board move opponent_player of
        Inl e \<Rightarrow> Inl e
      | Inr child_board \<Rightarrow>
          (case descend child_board of
             Inl e \<Rightarrow> Inl e
           | Inr (v, _) \<Rightarrow>
               (let (min_value, best_move) =
                      (if v < min_value then (v, Some move) else (min_value, best_move))
                in min_loop_exhaustive descend board current_player rest
                     min_value best_move)))"

fun minimax ::
  "grid \<Rightarrow> int \<Rightarrow> nat \<Rightarrow> int \<Rightarrow> bool \<Rightarrow> error + score \<times> nat option" where
  "minimax board turn depth current_player maximizing_player =
     (if length (get_possible_moves board) = 1
      then Inr (Fin (eval board current_player), Some (get_possible_moves board ! 0))
      else if depth = 0 \<or> check_victory board
      then Inr (Fin (eval board current_player), None)
      else
        (let possible_moves = get_possible_moves board;
             best_move = None
         in if maximizing_player
            then max_loop_exhaustive (\<lambda>child_board.
                     minimax child_board turn (depth - 1) current_player False)
                   board current_player possible_moves NegInf best_move
            else min_loop_exhaustive (\<lambda>child_board.
                     minimax child_board turn (depth - 1) current_player True)
                   board current_player possible_moves PosInf best_move))"

declare minimax.simps [simp del]

section \<open>Definitions used in the proofs\<close>

text \<open>The windows in the order in which \<^verbatim>\<open>eval\<close> scans them, and the cells likewise.\<close>

definition code_windows :: "(orientation \<times> int \<times> int) list" where
  "code_windows =
     [(Horizontal, (int col, int row)). row \<leftarrow> [0..<6], col \<leftarrow> [0..<4]]
   @ [(Vertical, (int col, int row)). col \<leftarrow> [0..<7], row \<leftarrow> [0..<3]]
   @ [(Diagonal_up, (int col, int row)). col \<leftarrow> [0..<4], row \<leftarrow> [0..<3]]
   @ [(Diagonal_down, (int col, int row)). col \<leftarrow> [0..<4], row \<leftarrow> [3..<6]]"

definition window_family :: "(orientation \<times> int \<times> int) set" where
  "window_family =
     {Horizontal} \<times> ({0..<4} \<times> {0..<6}) \<union> {Vertical} \<times> ({0..<7} \<times> {0..<3})
     \<union> {Diagonal_up} \<times> ({0..<4} \<times> {0..<3}) \<union> {Diagonal_down} \<times> ({0..<4} \<times> {3..<6})"

definition code_cells :: "(int \<times> int) list" where
  "code_cells = [(int col, int row). row \<leftarrow> [0..<6], col \<leftarrow> [0..<7]]"

definition run4 :: "int \<Rightarrow> int \<Rightarrow> int \<Rightarrow> int \<Rightarrow> bool" where
  "run4 a b c d = (a = b \<and> b = c \<and> c = d \<and> d \<noteq> 0)"

text \<open>
  What a search with the bounds \<open>a\<close> and \<open>b\<close> may return as \<open>r\<close> when the exhaustive
  score is \<open>v\<close>: the score itself inside the bounds, and a score on the same side of a
  bound outside them.
\<close>

definition ab_sound :: "score \<Rightarrow> score \<Rightarrow> score \<Rightarrow> score \<Rightarrow> bool" where
  "ab_sound a b v r = ((v \<le> a \<longrightarrow> r \<le> a) \<and> (b \<le> v \<longrightarrow> b \<le> r) \<and> (a < v \<and> v < b \<longrightarrow> r = v))"

subsection \<open>Boards for the examples\<close>

text \<open>Player 1 holds the bottom row of columns 0 to 3; nothing else is played.\<close>

definition bottom_row_win :: grid where
  "bottom_row_win =
     empty_grid(0 := (empty_grid 0)(0 := 1), 1 := (empty_grid 1)(0 := 1),
                2 := (empty_grid 2)(0 := 1), 3 := (empty_grid 3)(0 := 1))"

text \<open>Column 0 is full of disks of player 1.\<close>

definition full_column_grid :: grid where
  "full_column_grid = empty_grid(0 := (\<lambda>row. if row < 6 then 1 else 0))"

text \<open>Every column but column 3 is full of disks of player 1.\<close>

definition one_column_left :: grid where
  "one_column_left = (\<lambda>column row. if column < 7 \<and> column \<noteq> 3 \<and> row < 6 then 1 else 0)"

text \<open>The store after the module is loaded and \<^verbatim>\<open>Board()\<close> has run twice.\<close>

definition two_boards :: store where
  "two_boards = snd (Board_new (snd (Board_new initial_store)))"

section \<open>Moves and disks\<close>

lemma get_possible_moves_filter:
  "get_possible_moves g = filter (\<lambda>c. g c 5 = 0) [3, 4, 2, 5, 1, 6, 0]"
  by (simp add: get_possible_moves_def Let_def upt_rec)

lemma set_get_possible_moves: "set (get_possible_moves g) = {c. c < 7 \<and> g c 5 = 0}"
proof -
  have "set [3, 4, 2, 5, 1, 6, 0::nat] = {c. c < 7}"
    by (auto simp: less_Suc_eq numeral_eq_Suc)
  then show ?thesis unfolding get_possible_moves_filter set_filter by blast
qed

lemma distinct_get_possible_moves: "distinct (get_possible_moves g)"
  unfolding get_possible_moves_filter by (rule distinct_filter) simp

lemma get_possible_moves_less_7: "\<forall>m\<in>set (get_possible_moves g). m < 7"
  unfolding get_possible_moves_filter by simp

text \<open>
  Claim C7. \<^verbatim>\<open>get_possible_moves\<close> returns the columns whose top cell (row 5) is empty,
  in the order 3, 4, 2, 5, 1, 6, 0 restricted to those columns: never a full column, and
  the empty list exactly when all seven columns are full.
\<close>

theorem get_possible_moves_center_out:
  "get_possible_moves g = filter (\<lambda>c. g c 5 = 0) [3, 4, 2, 5, 1, 6, 0]
   \<and> set (get_possible_moves g) = {c. c < 7 \<and> g c 5 = 0}
   \<and> (get_possible_moves g = [] \<longleftrightarrow> (\<forall>c<7. g c 5 \<noteq> 0))"
proof -
  have "get_possible_moves g = [] \<longleftrightarrow> set (get_possible_moves g) = {}" by simp
  also have "\<dots> \<longleftrightarrow> (\<forall>c<7. g c 5 \<noteq> 0)" unfolding set_get_possible_moves by blast
  finally show ?thesis using get_possible_moves_filter set_get_possible_moves by blast
qed

theorem get_possible_moves_center_out_witness:
  "get_possible_moves full_column_grid = [3, 4, 2, 5, 1, 6]
   \<and> set (get_possible_moves full_column_grid) = {c. c < 7 \<and> full_column_grid c 5 = 0}
   \<and> get_possible_moves full_column_grid \<noteq> []"
proof -
  have e: "get_possible_moves full_column_grid = [3, 4, 2, 5, 1, 6]"
    by (simp add: get_possible_moves_def Let_def upt_rec full_column_grid_def empty_grid_def)
  then have n: "get_possible_moves full_column_grid \<noteq> []" by simp
  from get_possible_moves_center_out [of full_column_grid]
  have "set (get_possible_moves full_column_grid) = {c. c < 7 \<and> full_column_grid c 5 = 0}"
    by blast
  with e n show ?thesis by blast
qed

lemma add_disk_Inr: "m < 7 \<Longrightarrow> add_disk g m p = Inr (add_disk_loop g m p [0..<6])"
  by (simp add: add_disk_def)

lemma add_disk_loop_none:
  "\<forall>j\<in>set js. g c j \<noteq> 0 \<Longrightarrow> add_disk_loop g c p js = g"
  by (induction js) auto

lemma add_disk_loop_other: "c \<noteq> m \<Longrightarrow> add_disk_loop g m q js c = g c"
  by (induction js) auto

lemma add_disk_loop_first:
  "\<exists>j. k \<le> j \<and> j < n \<and> g c j = 0 \<Longrightarrow>
   \<exists>j. k \<le> j \<and> j < n \<and> g c j = 0 \<and> (\<forall>i. k \<le> i \<and> i < j \<longrightarrow> g c i \<noteq> 0)
       \<and> add_disk_loop g c p [k..<n] = g(c := (g c)(j := p))"
proof (induction "n - k" arbitrary: k)
  case 0
  then show ?case by auto
next
  case (Suc d)
  then have kn: "k < n" by auto
  then have up: "[k..<n] = k # [Suc k..<n]" by (simp add: upt_conv_Cons)
  show ?case
  proof (cases "g c k = 0")
    case True
    then show ?thesis using kn up by auto
  next
    case False
    from Suc.prems obtain j where j: "k \<le> j" "j < n" "g c j = 0" by blast
    with False have "k \<noteq> j" by auto
    with j have "Suc k \<le> j" by simp
    with j have ex: "\<exists>j. Suc k \<le> j \<and> j < n \<and> g c j = 0" by blast
    have "d = n - Suc k" using Suc.hyps(2) by simp
    from Suc.hyps(1) [OF this ex] obtain j' where j':
      "Suc k \<le> j'" "j' < n" "g c j' = 0" "\<forall>i. Suc k \<le> i \<and> i < j' \<longrightarrow> g c i \<noteq> 0"
      "add_disk_loop g c p [Suc k..<n] = g(c := (g c)(j' := p))" by blast
    have "\<forall>i. k \<le> i \<and> i < j' \<longrightarrow> g c i \<noteq> 0"
      using j'(4) False by (metis Suc_leI le_neq_implies_less)
    moreover have "add_disk_loop g c p [k..<n] = g(c := (g c)(j' := p))"
      using up False j'(5) by simp
    moreover have "k \<le> j'" using j'(1) by simp
    ultimately show ?thesis using j'(2,3) by blast
  qed
qed

lemma filter_flip_one:
  "distinct xs \<Longrightarrow> j \<in> set xs \<Longrightarrow> \<not> P j \<Longrightarrow> Q j \<Longrightarrow> (\<forall>x. x \<noteq> j \<longrightarrow> Q x = P x) \<Longrightarrow>
   length (filter Q xs) = length (filter P xs) + 1"
proof (induction xs)
  case Nil
  then show ?case by simp
next
  case (Cons x xs)
  show ?case
  proof (cases "x = j")
    case True
    with Cons.prems have "j \<notin> set xs" by auto
    with Cons.prems(5) have "filter Q xs = filter P xs"
      by (intro filter_cong) auto
    with True Cons.prems show ?thesis by simp
  next
    case False
    with Cons show ?thesis by auto
  qed
qed

lemma add_disk_changes:
  assumes "column_filled g c = Inr False" and "p = 1 \<or> p = 2"
  shows "\<exists>g'. add_disk g c p = Inr g' \<and> g' \<noteq> g"
proof -
  from assms(1) have c: "c < 7" and top: "g c 5 = 0"
    by (auto simp: column_filled_def split: if_splits)
  then have "\<exists>j. 0 \<le> j \<and> j < 6 \<and> g c j = 0" by (intro exI [of _ 5]) simp
  with add_disk_loop_first [where k = 0 and n = 6 and g = g and c = c and p = p]
  obtain j where j: "g c j = 0" "add_disk_loop g c p [0..<6] = g(c := (g c)(j := p))"
    by blast
  have "(g(c := (g c)(j := p))) c j \<noteq> g c j" using j(1) assms(2) by auto
  then have "g(c := (g c)(j := p)) \<noteq> g" by metis
  with j(2) c show ?thesis by (simp add: add_disk_def)
qed

text \<open>
  Claim C9. On a column that is not full, \<^verbatim>\<open>add_disk(c, p, update_display=False)\<close> with
  \<open>p\<close> one of the two players sets exactly one cell, the lowest empty row of column \<open>c\<close>,
  to \<open>p\<close> and leaves every other cell as it was; the occupied height of column \<open>c\<close> grows
  by one and the height of every other column stays.
\<close>

theorem add_disk_single_cell:
  assumes "column_filled g c = Inr False" and "p = 1 \<or> p = 2"
  shows "\<exists>g' j. add_disk g c p = Inr g' \<and> j < 6 \<and> g c j = 0 \<and> (\<forall>i<j. g c i \<noteq> 0)
           \<and> g' c j = p \<and> (\<forall>c' r'. (c', r') \<noteq> (c, j) \<longrightarrow> g' c' r' = g c' r')
           \<and> column_height g' c = column_height g c + 1
           \<and> (\<forall>c'. c' \<noteq> c \<longrightarrow> column_height g' c' = column_height g c')"
proof -
  from assms(1) have c: "c < 7" and top: "g c 5 = 0"
    by (auto simp: column_filled_def split: if_splits)
  then have "\<exists>j. 0 \<le> j \<and> j < 6 \<and> g c j = 0" by (intro exI [of _ 5]) simp
  with add_disk_loop_first [where k = 0 and n = 6 and g = g and c = c and p = p]
  obtain j where j:
    "j < 6" "g c j = 0" "\<forall>i. 0 \<le> i \<and> i < j \<longrightarrow> g c i \<noteq> 0"
    "add_disk_loop g c p [0..<6] = g(c := (g c)(j := p))" by blast
  define g' where "g' = g(c := (g c)(j := p))"
  have 1: "add_disk g c p = Inr g'" using c j(4) by (simp add: add_disk_def g'_def)
  have p0: "p \<noteq> 0" using assms(2) by auto
  have 2: "column_height g' c = column_height g c + 1"
    unfolding column_height_def
    by (rule filter_flip_one [where j = j]) (use j p0 in \<open>auto simp: g'_def\<close>)
  have 3: "\<forall>c'. c' \<noteq> c \<longrightarrow> column_height g' c' = column_height g c'"
    by (simp add: column_height_def g'_def)
  have 4: "\<forall>c' r'. (c', r') \<noteq> (c, j) \<longrightarrow> g' c' r' = g c' r'"
    by (auto simp: g'_def)
  have 5: "g' c j = p" by (simp add: g'_def)
  show ?thesis using 1 2 3 4 5 j by blast
qed

theorem add_disk_single_cell_witness:
  "column_filled bottom_row_win 3 = Inr False \<and> ((2::int) = 1 \<or> (2::int) = 2)
   \<and> (\<exists>g' j. add_disk bottom_row_win 3 2 = Inr g' \<and> j < 6 \<and> bottom_row_win 3 j = 0
         \<and> g' 3 j = 2 \<and> column_height g' 3 = column_height bottom_row_win 3 + 1)"
proof -
  have h: "column_filled bottom_row_win 3 = Inr False"
    by (simp add: column_filled_def bottom_row_win_def empty_grid_def)
  from add_disk_single_cell [OF h, of 2] h show ?thesis by auto
qed

text \<open>
  Claim C8, as the code has it. On a full column \<^verbatim>\<open>add_disk(c, p, update_display=False)\<close>
  returns normally: the loop finds no empty cell, writes nothing, and nothing is raised.
  When no cell of the column is empty the grid is left as it was.
\<close>

theorem add_disk_full_column_returns:
  assumes "column_filled g c = Inr True"
  shows "(\<exists>g'. add_disk g c p = Inr g') \<and> ((\<forall>r<6. g c r \<noteq> 0) \<longrightarrow> add_disk g c p = Inr g)"
proof -
  from assms have c: "c < 7" by (auto simp: column_filled_def split: if_splits)
  then show ?thesis by (auto simp: add_disk_def add_disk_loop_none)
qed

theorem add_disk_full_column_returns_witness:
  "column_filled full_column_grid 0 = Inr True
   \<and> (\<exists>g'. add_disk full_column_grid 0 2 = Inr g')"
proof -
  have h: "column_filled full_column_grid 0 = Inr True"
    by (simp add: column_filled_def full_column_grid_def empty_grid_def)
  from add_disk_full_column_returns [OF h, of 2] h show ?thesis by blast
qed

text \<open>
  The claim as stated, that the call fails with an error, is false on the board whose
  column 0 is full: the call returns the grid unchanged.
\<close>

theorem add_disk_full_column_no_error:
  "column_filled full_column_grid 0 = Inr True
   \<and> add_disk full_column_grid 0 2 = Inr full_column_grid
   \<and> add_disk full_column_grid 0 2 \<noteq> Inl IndexError"
  by (simp add: column_filled_def add_disk_def full_column_grid_def empty_grid_def upt_rec)

section \<open>The windows that the code scans are the windows of the board\<close>

lemma all_windows_family: "all_windows = window_family"
proof (rule set_eqI)
  fix w :: "orientation \<times> int \<times> int"
  obtain ori c r where w: "w = (ori, c, r)" by (cases w) auto
  show "w \<in> all_windows \<longleftrightarrow> w \<in> window_family"
    unfolding w all_windows_def window_family_def
    by (cases ori) (auto simp: window_cells_def in_grid_def)
qed

lemma int_in_range: "(\<exists>n\<in>{a..<b}. c = int n) \<longleftrightarrow> int a \<le> c \<and> c < int b"
proof
  assume "int a \<le> c \<and> c < int b"
  then have "nat c \<in> {a..<b}" "c = int (nat c)" by auto
  then show "\<exists>n\<in>{a..<b}. c = int n" by blast
qed auto

lemma set_family_outer_row:
  "set [(ori :: orientation, (int col, int row)). row \<leftarrow> [a..<b], col \<leftarrow> [a'..<b']]
     = {ori} \<times> ({int a'..<int b'} \<times> {int a..<int b})"
proof (rule set_eqI)
  fix w :: "orientation \<times> int \<times> int"
  obtain o' c r where w: "w = (o', c, r)" by (cases w) auto
  show "w \<in> set [(ori, (int col, int row)). row \<leftarrow> [a..<b], col \<leftarrow> [a'..<b']]
     \<longleftrightarrow> w \<in> {ori} \<times> ({int a'..<int b'} \<times> {int a..<int b})"
    unfolding w by (simp add: image_iff int_in_range)
qed

lemma set_family_outer_col:
  "set [(ori :: orientation, (int col, int row)). col \<leftarrow> [a'..<b'], row \<leftarrow> [a..<b]]
     = {ori} \<times> ({int a'..<int b'} \<times> {int a..<int b})"
proof (rule set_eqI)
  fix w :: "orientation \<times> int \<times> int"
  obtain o' c r where w: "w = (o', c, r)" by (cases w) auto
  show "w \<in> set [(ori, (int col, int row)). col \<leftarrow> [a'..<b'], row \<leftarrow> [a..<b]]
     \<longleftrightarrow> w \<in> {ori} \<times> ({int a'..<int b'} \<times> {int a..<int b})"
    unfolding w by (simp add: image_iff int_in_range)
qed

lemma set_code_windows: "set code_windows = window_family"
  unfolding code_windows_def window_family_def set_append
    set_family_outer_row set_family_outer_col
  by (simp add: Un_assoc)

lemma distinct_code_windows: "distinct code_windows"
  unfolding code_windows_def by (simp add: upt_rec)

text \<open>
  The four scans of \<^verbatim>\<open>eval\<close>, for any scoring of a window, add up the scores of
  \<open>code_windows\<close>.
\<close>

lemma windows_sum:
  "(\<Sum>row\<leftarrow>[0..<6]. \<Sum>col\<leftarrow>[0..<4]. sc (map (\<lambda>c. g c row) [col..<col + 4]))
   + (\<Sum>col\<leftarrow>[0..<7]. \<Sum>row\<leftarrow>[0..<3]. sc (map (\<lambda>r. g col r) [row..<row + 4]))
   + (\<Sum>col\<leftarrow>[0..<4]. \<Sum>row\<leftarrow>[0..<3]. sc (map (\<lambda>i. g (col + i) (row + i)) [0..<4]))
   + (\<Sum>col\<leftarrow>[0..<4]. \<Sum>row\<leftarrow>[3..<6]. sc (map (\<lambda>i. g (col + i) (row - i)) [0..<4]))
   = (\<Sum>(ori, start)\<leftarrow>code_windows. (sc (map (cell_at g) (window_cells ori start)) :: int))"
  unfolding code_windows_def window_cells_def cell_at_def
  by (simp add: upt_rec numeral_2_eq_2 [symmetric])

section \<open>check\_victory\<close>

lemma check_victory_run4:
  "check_victory g =
     (list_ex (\<lambda>line. list_ex (\<lambda>hs.
          run4 (g hs line) (g (hs + 1) line) (g (hs + 2) line) (g (hs + 3) line)) [0..<4]) [0..<6]
      \<or> list_ex (\<lambda>column. list_ex (\<lambda>vs.
          run4 (g column vs) (g column (vs + 1)) (g column (vs + 2)) (g column (vs + 3)))
            [0..<3]) [0..<7]
      \<or> list_ex (\<lambda>hs. list_ex (\<lambda>vs.
          run4 (g hs vs) (g (hs + 1) (vs + 1)) (g (hs + 2) (vs + 2)) (g (hs + 3) (vs + 3))
        \<or> run4 (g hs (5 - vs)) (g (hs + 1) (4 - vs)) (g (hs + 2) (3 - vs)) (g (hs + 3) (2 - vs)))
            [0..<3]) [0..<4])"
  unfolding check_victory_def run4_def by simp

lemma four_in_a_row_run4:
  "four_in_a_row g =
     list_ex (\<lambda>(ori, start). case window_cells ori start of
        [c1, c2, c3, c4] \<Rightarrow> run4 (cell_at g c1) (cell_at g c2) (cell_at g c3) (cell_at g c4)
      | _ \<Rightarrow> False) code_windows"
  unfolding four_in_a_row_def all_windows_family set_code_windows [symmetric] list_ex_iff
  by (intro bex_cong refl) (auto simp: window_cells_def run4_def)

lemma check_victory_bottom_row_win: "check_victory bottom_row_win"
  by (simp add: check_victory_def bottom_row_win_def empty_grid_def upt_rec)

lemma check_victory_empty_grid: "\<not> check_victory empty_grid"
  by (simp add: check_victory_def empty_grid_def list_ex_iff)

text \<open>
  Claim C6. \<^verbatim>\<open>check_victory\<close> returns true exactly when four contiguous cells in a
  horizontal, vertical or diagonal line are all equal and all non-empty. The right-hand
  side does not mention an order of the orientations, so the order of the scans does not
  change the result. The theorem holds for every grid, whatever its cell values.
\<close>

theorem check_victory_iff_four_in_a_row: "check_victory g \<longleftrightarrow> four_in_a_row g"
  unfolding check_victory_run4 four_in_a_row_run4 code_windows_def window_cells_def cell_at_def
  by (simp add: upt_rec numeral_2_eq_2 [symmetric] disj_ac)

theorem check_victory_iff_four_in_a_row_witness:
  "check_victory bottom_row_win \<and> four_in_a_row bottom_row_win
   \<and> \<not> check_victory empty_grid \<and> \<not> four_in_a_row empty_grid"
  using check_victory_iff_four_in_a_row [of bottom_row_win]
    check_victory_iff_four_in_a_row [of empty_grid]
    check_victory_bottom_row_win check_victory_empty_grid
  by blast

section \<open>eval\<close>

lemma neq_opponent: "p \<noteq> 3 - (p::int)"
  by presburger

lemma count_list_two: "x \<noteq> y \<Longrightarrow> count_list w x + count_list w y \<le> length w"
  by (induction w) auto

lemma eval_window_opponent: "length w = 4 \<Longrightarrow> eval_window w (3 - p) = - eval_window w p"
  using count_list_two [OF neq_opponent, of w p]
  by (auto simp: eval_window_def Let_def)

lemma ex_less_4: "(\<exists>i<4. P i) = (P 0 \<or> P 1 \<or> P 2 \<or> P (3::nat))"
  by (auto simp: numeral_eq_Suc less_Suc_eq)

lemma all_less_4: "(\<forall>i<4. P i) = (P 0 \<and> P 1 \<and> P 2 \<and> P (3::nat))"
  by (auto simp: numeral_eq_Suc less_Suc_eq)

lemma length_4_list: "length w = 4 \<Longrightarrow> \<exists>a b c d. w = [a, b, c, d]"
  by (auto simp: numeral_eq_Suc length_Suc_conv)

lemma count_list_all: "(count_list w x = length w) = list_all (\<lambda>y. y = x) w"
proof (induction w)
  case Nil
  then show ?case by simp
next
  case (Cons a w)
  have "count_list w x \<le> length w" by (rule count_le_length)
  with Cons show ?case by auto
qed

lemma count_list_three:
  assumes "x \<noteq> 0"
  shows "(count_list [a, b, c, d] x = 3 \<and> count_list [a, b, c, d] 0 = 1)
     = (\<exists>i<4. [a, b, c, d] ! i = (0::int) \<and> (\<forall>j<4. j \<noteq> i \<longrightarrow> [a, b, c, d] ! j = x))"
  unfolding ex_less_4 all_less_4 using assms by auto

lemma eval_window_score:
  assumes "length w = 4" and "p = 1 \<or> p = 2"
  shows "eval_window w p = window_score w p"
proof -
  from length_4_list [OF assms(1)] obtain a b c d where w: "w = [a, b, c, d]" by blast
  have p: "p \<noteq> 0" "3 - p \<noteq> 0" using assms(2) by auto
  have 4: "\<And>x. (count_list w x = 4) = list_all (\<lambda>y. y = x) w"
    using count_list_all [of w] assms(1) by simp
  show ?thesis
    unfolding eval_window_def window_score_def Let_def 4
    unfolding w count_list_three [OF p(1)] count_list_three [OF p(2)]
    by (rule refl)
qed

lemma set_code_cells: "set code_cells = {cell. in_grid cell}"
proof (rule set_eqI)
  fix cell :: "int \<times> int"
  obtain c r where cell: "cell = (c, r)" by (cases cell) auto
  show "cell \<in> set code_cells \<longleftrightarrow> cell \<in> {cell. in_grid cell}"
    unfolding cell code_cells_def
    by (simp add: image_iff int_in_range in_grid_def)
qed

lemma distinct_code_cells: "distinct code_cells"
  unfolding code_cells_def by (simp add: upt_rec)

lemma cells_sum:
  "(\<Sum>row\<leftarrow>[0..<6]. \<Sum>col\<leftarrow>[0..<7]. f col row)
   = (\<Sum>(c, r)\<leftarrow>code_cells. (f (nat c) (nat r) :: int))"
  unfolding code_cells_def by (simp add: upt_rec numeral_2_eq_2 [symmetric])

lemma windows_part:
  assumes "p = 1 \<or> p = 2"
  shows "eval_horizontal g p + eval_vertical g p + eval_first_diagonal g p
           + eval_second_diagonal g p
         = (\<Sum>(ori, start) \<in> all_windows.
              window_score (map (cell_at g) (window_cells ori start)) p)"
proof -
  have "eval_horizontal g p + eval_vertical g p + eval_first_diagonal g p
           + eval_second_diagonal g p
        = (\<Sum>(ori, start)\<leftarrow>code_windows.
             eval_window (map (cell_at g) (window_cells ori start)) p)"
    unfolding eval_horizontal_def eval_vertical_def eval_first_diagonal_def
      eval_second_diagonal_def
    by (rule windows_sum [of "\<lambda>w. eval_window w p" g])
  also have "\<dots> = (\<Sum>(ori, start)\<leftarrow>code_windows.
             window_score (map (cell_at g) (window_cells ori start)) p)"
    by (intro arg_cong [where f = sum_list] map_cong refl)
       (auto simp: window_cells_def eval_window_score [OF _ assms])
  also have "\<dots> = (\<Sum>(ori, start) \<in> set code_windows.
              window_score (map (cell_at g) (window_cells ori start)) p)"
    by (rule sum.distinct_set_conv_list [OF distinct_code_windows, symmetric])
  finally show ?thesis by (simp add: set_code_windows all_windows_family)
qed

lemma central_part:
  "eval_central g p = (\<Sum>cell \<in> {cell. in_grid cell}. positional_bonus g p cell)"
proof -
  have "eval_central g p = (\<Sum>(c, r)\<leftarrow>code_cells. positional_bonus g p (c, r))"
    unfolding eval_central_def Let_def cells_sum
    by (intro arg_cong [where f = sum_list] map_cong refl)
       (use neq_opponent [of p] in
         \<open>auto simp: positional_bonus_def cell_at_def position_weight_def\<close>)
  also have "\<dots> = (\<Sum>cell\<leftarrow>code_cells. positional_bonus g p cell)"
    by (simp add: case_prod_eta)
  also have "\<dots> = (\<Sum>cell \<in> set code_cells. positional_bonus g p cell)"
    by (rule sum.distinct_set_conv_list [OF distinct_code_cells, symmetric])
  finally show ?thesis by (simp add: set_code_cells)
qed

lemma eval_bottom_row_win: "eval bottom_row_win 1 = 10039"
  by (simp add: bottom_row_win_def empty_grid_def eval_def eval_horizontal_def
      eval_vertical_def eval_first_diagonal_def eval_second_diagonal_def eval_central_def
      eval_window_def evaluation_table_def upt_rec Let_def)

lemma distinct_window_cell_sets:
  "distinct (map (\<lambda>(ori, start). set (window_cells ori start)) code_windows)"
  by code_simp

lemma windows_inj: "inj_on (\<lambda>(ori, start). set (window_cells ori start)) all_windows"
  unfolding all_windows_family set_code_windows [symmetric]
  using distinct_window_cell_sets distinct_code_windows
  by (simp add: distinct_map)

lemma card_all_windows: "finite all_windows \<and> card all_windows = 69"
proof -
  have "length code_windows = 69" by code_simp
  with distinct_card [OF distinct_code_windows] show ?thesis
    unfolding all_windows_family set_code_windows [symmetric] by simp
qed

lemma card_grid_cells: "finite {cell. in_grid cell} \<and> card {cell. in_grid cell} = 42"
proof -
  have "length code_cells = 42" by code_simp
  with distinct_card [OF distinct_code_cells] show ?thesis
    unfolding set_code_cells [symmetric] by simp
qed

text \<open>
  Claim C4. For a player \<open>p\<close> in {1, 2}, \<^verbatim>\<open>eval\<close> is the sum over every window of four
  contiguous cells of the board of 10000, -10000, 20, -20 or 0 as the specification lists
  them, plus, over every cell of the grid, the cell's weight in the fixed table, added
  for a cell of \<open>p\<close> and subtracted for a cell of the opponent. Nothing else is added.
  Each window is counted once: the sum ranges over the 69 windows as a set, and different
  windows of that set cover different sets of cells. The cells are the 42 of the grid.
\<close>

theorem eval_eq_spec_eval:
  assumes "p = 1 \<or> p = 2"
  shows "eval g p = spec_eval g p
    \<and> finite all_windows \<and> card all_windows = 69
    \<and> inj_on (\<lambda>(ori, start). set (window_cells ori start)) all_windows
    \<and> finite {cell. in_grid cell} \<and> card {cell. in_grid cell} = 42"
proof -
  have "eval g p = spec_eval g p"
    unfolding eval_def spec_eval_def
    using windows_part [OF assms, of g] central_part [of g p] by simp
  with card_all_windows windows_inj card_grid_cells show ?thesis by blast
qed

theorem eval_eq_spec_eval_witness:
  "((1::int) = 1 \<or> (1::int) = 2) \<and> eval bottom_row_win 1 = 10039
   \<and> spec_eval bottom_row_win 1 = 10039"
proof -
  have h: "(1::int) = 1 \<or> (1::int) = 2" by simp
  from eval_eq_spec_eval [OF h, of bottom_row_win] eval_bottom_row_win h
  show ?thesis by simp
qed

lemma sum_list_neg:
  "(\<And>x. x \<in> set xs \<Longrightarrow> f x = - h x) \<Longrightarrow> (\<Sum>x\<leftarrow>xs. (f x :: int)) = - (\<Sum>x\<leftarrow>xs. h x)"
  by (induction xs) auto

lemma windows_opponent:
  "eval_horizontal g (3 - p) + eval_vertical g (3 - p) + eval_first_diagonal g (3 - p)
           + eval_second_diagonal g (3 - p)
   = - (eval_horizontal g p + eval_vertical g p + eval_first_diagonal g p
           + eval_second_diagonal g p)"
  unfolding eval_horizontal_def eval_vertical_def eval_first_diagonal_def
      eval_second_diagonal_def
      windows_sum [of "\<lambda>w. eval_window w (3 - p)" g] windows_sum [of "\<lambda>w. eval_window w p" g]
  by (rule sum_list_neg) (auto simp: window_cells_def eval_window_opponent)

lemma central_opponent: "eval_central g (3 - p) = - eval_central g p"
  unfolding eval_central_def Let_def cells_sum
  by (rule sum_list_neg) (use neq_opponent [of p] in auto)

lemma eval_opponent: "eval g (3 - p) = - eval g p"
  unfolding eval_def using windows_opponent [of g p] central_opponent [of g p] by simp

text \<open>
  Claim C5, as the code has it. \<^verbatim>\<open>eval\<close> is exactly antisymmetric: for every board and
  every player number \<open>p\<close>, the score for the opponent \<open>3 - p\<close> is the negation of the
  score for \<open>p\<close>. The four cases of \<^verbatim>\<open>eval_window\<close> exclude each other on a window of
  four cells, and they swap in pairs when the player and the opponent swap; the positional
  loop swaps its two branches.
\<close>

theorem eval_antisymmetric: "eval g (3 - p) = - eval g p"
  by (rule eval_opponent)

theorem eval_antisymmetric_witness: "eval bottom_row_win 2 = - 10039"
  using eval_antisymmetric [of bottom_row_win 1] eval_bottom_row_win by simp

text \<open>
  The claim as stated, that some board and player have \<open>eval p \<noteq> - eval (3 - p)\<close>, is
  false.
\<close>

theorem eval_asymmetry_refuted: "\<not> (\<exists>g p. eval g p \<noteq> - eval g (3 - p))"
  using eval_opponent by simp

section \<open>The search: pruning does not change the score\<close>

lemma NegInf_less_PosInf: "NegInf < PosInf"
  by (simp add: less_score_def)

lemma Fin_less: "Fin a < Fin b \<longleftrightarrow> a < b"
  by (auto simp: less_score_def)

lemma max_loop_exhaustive_mono:
  assumes "\<forall>m\<in>set ms. m < 7" and "\<forall>cb. \<exists>v mo. dx cb = Inr (v, mo)"
  shows "\<exists>v bm'. max_loop_exhaustive dx board p ms mvx bmx = Inr (v, bm') \<and> mvx \<le> v"
  using assms(1)
proof (induction ms arbitrary: mvx bmx)
  case Nil
  then show ?case by simp
next
  case (Cons m ms)
  from assms(2) obtain v1 mo1 where v1: "dx (add_disk_loop board m p [0..<6]) = Inr (v1, mo1)"
    by blast
  from Cons.prems have m: "m < 7" and ms: "\<forall>m\<in>set ms. m < 7" by auto
  show ?case
  proof (cases "mvx < v1")
    case True
    from Cons.IH [OF ms, of v1 "Some m"] True show ?thesis
      by (auto simp: add_disk_Inr [OF m] v1)
  next
    case False
    from Cons.IH [OF ms, of mvx bmx] False show ?thesis
      by (auto simp: add_disk_Inr [OF m] v1)
  qed
qed

lemma min_loop_exhaustive_mono:
  assumes "\<forall>m\<in>set ms. m < 7" and "\<forall>cb. \<exists>v mo. dx cb = Inr (v, mo)"
  shows "\<exists>v bm'. min_loop_exhaustive dx board p ms mvx bmx = Inr (v, bm') \<and> v \<le> mvx"
  using assms(1)
proof (induction ms arbitrary: mvx bmx)
  case Nil
  then show ?case by simp
next
  case (Cons m ms)
  from assms(2) obtain v1 mo1 where
    v1: "dx (add_disk_loop board m (3 - p) [0..<6]) = Inr (v1, mo1)"
    by blast
  from Cons.prems have m: "m < 7" and ms: "\<forall>m\<in>set ms. m < 7" by auto
  show ?case
  proof (cases "v1 < mvx")
    case True
    from Cons.IH [OF ms, of v1 "Some m"] True show ?thesis
      by (auto simp: add_disk_Inr [OF m] v1)
  next
    case False
    from Cons.IH [OF ms, of mvx bmx] False show ?thesis
      by (auto simp: add_disk_Inr [OF m] v1)
  qed
qed

text \<open>
  The loop of a maximising node. \<open>alpha0\<close> is the lower bound the node was called with;
  \<open>alpha\<close> is the bound after the moves tried so far; \<open>mv\<close> and \<open>mvx\<close> are the best
  scores so far of the pruned and of the exhaustive loop. So long as the loop has not
  broken, the two best scores are either both at most \<open>alpha0\<close>, or equal and above it.
\<close>

lemma max_loop_sound:
  assumes "\<forall>m\<in>set ms. m < 7"
    and "\<forall>cb a b. a < b \<longrightarrow>
           (\<exists>r mo v mo'. d cb a b = Inr (r, mo) \<and> dx cb = Inr (v, mo') \<and> ab_sound a b v r)"
    and "alpha < beta" and "alpha = max alpha0 mv"
    and "(mvx \<le> alpha0 \<and> mv \<le> alpha0) \<or> (alpha0 < mvx \<and> mv = mvx)"
  shows "\<exists>r bm' v bmx'. max_loop d board p alpha beta ms mv bm = Inr (r, bm')
           \<and> max_loop_exhaustive dx board p ms mvx bmx = Inr (v, bmx')
           \<and> ab_sound alpha0 beta v r"
  using assms(1,3,4,5)
proof (induction ms arbitrary: alpha mv bm mvx bmx)
  case Nil
  then show ?case by (auto simp: ab_sound_def)
next
  case (Cons m ms)
  from Cons.prems have m: "m < 7" and ms: "\<forall>m\<in>set ms. m < 7" by auto
  let ?cb = "add_disk_loop board m p [0..<6]"
  from assms(2) Cons.prems(2) obtain r1 mo1 v1 mo1' where
    r1: "d ?cb alpha beta = Inr (r1, mo1)" and v1: "dx ?cb = Inr (v1, mo1')"
    and s1: "ab_sound alpha beta v1 r1" by blast
  from assms(2) NegInf_less_PosInf have dx_total: "\<forall>cb. \<exists>v mo. dx cb = Inr (v, mo)"
    by blast
  define mv' where "mv' = max mv r1"
  define bm' where "bm' = (if mv < r1 then Some m else bm)"
  define mvx' where "mvx' = max mvx v1"
  define bmx' where "bmx' = (if mvx < v1 then Some m else bmx)"
  have exh: "max_loop_exhaustive dx board p (m # ms) mvx bmx
     = max_loop_exhaustive dx board p ms mvx' bmx'"
    by (auto simp: add_disk_Inr [OF m] v1 mvx'_def bmx'_def max_def)
  show ?case
  proof (cases "beta \<le> max alpha r1")
    case True
    then have ab: "max_loop d board p alpha beta (m # ms) mv bm = Inr (mv', bm')"
      by (auto simp: add_disk_Inr [OF m] r1 mv'_def bm'_def max_def)
    from max_loop_exhaustive_mono [OF ms dx_total, of board p mvx' bmx'] obtain v bmx2 where
      v: "max_loop_exhaustive dx board p ms mvx' bmx' = Inr (v, bmx2)" "mvx' \<le> v" by blast
    from True Cons.prems(2) have "beta \<le> r1" by (auto simp: max_def split: if_splits)
    moreover from this s1 Cons.prems(2) have "beta \<le> v1"
      unfolding ab_sound_def by (metis leD leI order.strict_trans2)
    ultimately have "beta \<le> mv'" "beta \<le> v" "alpha0 < beta"
      using v(2) Cons.prems(2,3) by (auto simp: mv'_def mvx'_def)
    then have "ab_sound alpha0 beta v mv'" by (auto simp: ab_sound_def)
    with ab exh v show ?thesis by auto
  next
    case False
    then have lt: "max alpha r1 < beta" by (simp only: not_le)
    have ab: "max_loop d board p alpha beta (m # ms) mv bm
       = max_loop d board p (max alpha r1) beta ms mv' bm'"
      using False by (auto simp: add_disk_Inr [OF m] r1 mv'_def bm'_def max_def)
    have 1: "max alpha r1 = max alpha0 mv'"
      using Cons.prems(3) by (simp add: mv'_def max.assoc)
    from lt have r1b: "r1 < beta" by simp
    with s1 have v1b: "v1 < beta" unfolding ab_sound_def by (meson leD leI)
    have 2: "(mvx' \<le> alpha0 \<and> mv' \<le> alpha0) \<or> (alpha0 < mvx' \<and> mv' = mvx')"
    proof (cases "v1 \<le> alpha")
      case True
      with s1 have "r1 \<le> alpha" by (simp add: ab_sound_def)
      with True Cons.prems(3,4) show ?thesis
        by (auto simp: mv'_def mvx'_def max_def split: if_splits)
    next
      case False
      with s1 v1b have "r1 = v1" by (simp add: ab_sound_def)
      with False Cons.prems(3,4) show ?thesis
        by (auto simp: mv'_def mvx'_def max_def split: if_splits)
    qed
    from Cons.IH [OF ms lt 1 2, of bm' bmx'] ab exh show ?thesis by simp
  qed
qed

lemma min_loop_sound:
  assumes "\<forall>m\<in>set ms. m < 7"
    and "\<forall>cb a b. a < b \<longrightarrow>
           (\<exists>r mo v mo'. d cb a b = Inr (r, mo) \<and> dx cb = Inr (v, mo') \<and> ab_sound a b v r)"
    and "alpha < beta" and "beta = min beta0 mv"
    and "(beta0 \<le> mvx \<and> beta0 \<le> mv) \<or> (mvx < beta0 \<and> mv = mvx)"
  shows "\<exists>r bm' v bmx'. min_loop d board p alpha beta ms mv bm = Inr (r, bm')
           \<and> min_loop_exhaustive dx board p ms mvx bmx = Inr (v, bmx')
           \<and> ab_sound alpha beta0 v r"
  using assms(1,3,4,5)
proof (induction ms arbitrary: beta mv bm mvx bmx)
  case Nil
  then show ?case by (auto simp: ab_sound_def)
next
  case (Cons m ms)
  from Cons.prems have m: "m < 7" and ms: "\<forall>m\<in>set ms. m < 7" by auto
  let ?cb = "add_disk_loop board m (3 - p) [0..<6]"
  from assms(2) Cons.prems(2) obtain r1 mo1 v1 mo1' where
    r1: "d ?cb alpha beta = Inr (r1, mo1)" and v1: "dx ?cb = Inr (v1, mo1')"
    and s1: "ab_sound alpha beta v1 r1" by blast
  from assms(2) NegInf_less_PosInf have dx_total: "\<forall>cb. \<exists>v mo. dx cb = Inr (v, mo)"
    by blast
  define mv' where "mv' = min mv r1"
  define bm' where "bm' = (if r1 < mv then Some m else bm)"
  define mvx' where "mvx' = min mvx v1"
  define bmx' where "bmx' = (if v1 < mvx then Some m else bmx)"
  have exh: "min_loop_exhaustive dx board p (m # ms) mvx bmx
     = min_loop_exhaustive dx board p ms mvx' bmx'"
    by (auto simp: add_disk_Inr [OF m] v1 mvx'_def bmx'_def min_def)
  show ?case
  proof (cases "min beta r1 \<le> alpha")
    case True
    then have ab: "min_loop d board p alpha beta (m # ms) mv bm = Inr (mv', bm')"
      by (auto simp: add_disk_Inr [OF m] r1 mv'_def bm'_def min_def)
    from min_loop_exhaustive_mono [OF ms dx_total, of board p mvx' bmx'] obtain v bmx2 where
      v: "min_loop_exhaustive dx board p ms mvx' bmx' = Inr (v, bmx2)" "v \<le> mvx'" by blast
    from True Cons.prems(2) have "r1 \<le> alpha" by (auto simp: min_def split: if_splits)
    moreover from this s1 Cons.prems(2) have "v1 \<le> alpha"
      unfolding ab_sound_def by (metis leD leI order.strict_trans1)
    ultimately have "mv' \<le> alpha" "v \<le> alpha" "alpha < beta0"
      using v(2) Cons.prems(2,3) by (auto simp: mv'_def mvx'_def)
    then have "ab_sound alpha beta0 v mv'" by (auto simp: ab_sound_def)
    with ab exh v show ?thesis by auto
  next
    case False
    then have lt: "alpha < min beta r1" by (simp only: not_le)
    have ab: "min_loop d board p alpha beta (m # ms) mv bm
       = min_loop d board p alpha (min beta r1) ms mv' bm'"
      using False by (auto simp: add_disk_Inr [OF m] r1 mv'_def bm'_def min_def)
    have 1: "min beta r1 = min beta0 mv'"
      using Cons.prems(3) by (simp add: mv'_def min.assoc)
    from lt have r1b: "alpha < r1" by simp
    with s1 have v1b: "alpha < v1" unfolding ab_sound_def by (meson leD leI)
    have 2: "(beta0 \<le> mvx' \<and> beta0 \<le> mv') \<or> (mvx' < beta0 \<and> mv' = mvx')"
    proof (cases "beta \<le> v1")
      case True
      with s1 have "beta \<le> r1" by (simp add: ab_sound_def)
      with True Cons.prems(3,4) show ?thesis
        by (auto simp: mv'_def mvx'_def min_def split: if_splits)
    next
      case False
      with s1 v1b have "r1 = v1" by (simp add: ab_sound_def)
      with False Cons.prems(3,4) show ?thesis
        by (auto simp: mv'_def mvx'_def min_def split: if_splits)
    qed
    from Cons.IH [OF ms lt 1 2, of bm' bmx'] ab exh show ?thesis by simp
  qed
qed

lemma alpha_beta_sound:
  "alpha < beta \<Longrightarrow>
   \<exists>r mo v mo'. alpha_beta board turn depth alpha beta p mx = Inr (r, mo)
      \<and> minimax board turn depth p mx = Inr (v, mo') \<and> ab_sound alpha beta v r"
proof (induction depth arbitrary: board alpha beta mx)
  case 0
  then show ?case by (simp add: alpha_beta.simps minimax.simps ab_sound_def)
next
  case (Suc depth)
  let ?d = "\<lambda>mx' child_board alpha beta. alpha_beta child_board turn depth alpha beta p mx'"
  let ?dx = "\<lambda>mx' child_board. minimax child_board turn depth p mx'"
  have IH: "\<forall>cb a b. a < b \<longrightarrow>
           (\<exists>r mo v mo'. ?d mx' cb a b = Inr (r, mo) \<and> ?dx mx' cb = Inr (v, mo')
              \<and> ab_sound a b v r)" for mx'
    using Suc.IH by blast
  show ?case
  proof (cases "length (get_possible_moves board) = 1 \<or> check_victory board")
    case True
    then show ?thesis by (auto simp: alpha_beta.simps minimax.simps ab_sound_def)
  next
    case False
    show ?thesis
    proof (cases mx)
      case True
      have "alpha = max alpha NegInf" by (cases alpha) (simp_all add: max_def)
      moreover have "(NegInf \<le> alpha \<and> NegInf \<le> alpha) \<or> (alpha < NegInf \<and> NegInf = NegInf)"
        by simp
      ultimately have "\<exists>r bm' v bmx'.
          max_loop (?d False) board p alpha beta (get_possible_moves board) NegInf None
            = Inr (r, bm')
          \<and> max_loop_exhaustive (?dx False) board p (get_possible_moves board) NegInf None
            = Inr (v, bmx')
          \<and> ab_sound alpha beta v r"
        by (intro max_loop_sound get_possible_moves_less_7 IH Suc.prems)
      then show ?thesis using False True
        by (simp add: alpha_beta.simps [of _ _ "Suc depth"] minimax.simps [of _ _ "Suc depth"])
    next
      case mn: False
      have "beta = min beta PosInf" by (cases beta) (simp_all add: min_def)
      moreover have "(beta \<le> PosInf \<and> beta \<le> PosInf) \<or> (PosInf < beta \<and> PosInf = PosInf)"
        by (cases beta) simp_all
      ultimately have "\<exists>r bm' v bmx'.
          min_loop (?d True) board p alpha beta (get_possible_moves board) PosInf None
            = Inr (r, bm')
          \<and> min_loop_exhaustive (?dx True) board p (get_possible_moves board) PosInf None
            = Inr (v, bmx')
          \<and> ab_sound alpha beta v r"
        by (intro min_loop_sound get_possible_moves_less_7 IH Suc.prems)
      then show ?thesis using False mn
        by (simp add: alpha_beta.simps [of _ _ "Suc depth"] minimax.simps [of _ _ "Suc depth"])
    qed
  qed
qed

lemma ab_sound_full: "ab_sound NegInf PosInf v r \<Longrightarrow> r = v"
  by (cases v; cases r) (auto simp: ab_sound_def less_score_def)

lemma alpha_beta_empty_grid_depth_2:
  "alpha_beta empty_grid 0 2 NegInf PosInf 1 True = Inr (Fin (- 3), Some 3)"
  by code_simp

text \<open>
  Claim C1. For every board, every depth and every player, the search started with
  \<open>alpha = -inf\<close> and \<open>beta = +inf\<close> as the maximising player returns the score that the
  exhaustive search returns; both return, neither raises.
\<close>

theorem alpha_beta_score_eq_minimax:
  "\<exists>s mo mo'. alpha_beta board turn depth NegInf PosInf p True = Inr (s, mo)
      \<and> minimax board turn depth p True = Inr (s, mo')"
proof -
  from alpha_beta_sound [OF NegInf_less_PosInf, of board turn depth p True] ab_sound_full
  show ?thesis by blast
qed

theorem alpha_beta_score_eq_minimax_witness:
  "alpha_beta empty_grid 0 2 NegInf PosInf 1 True = Inr (Fin (- 3), Some 3)
   \<and> (\<exists>mo'. minimax empty_grid 0 2 1 True = Inr (Fin (- 3), mo'))"
  using alpha_beta_score_eq_minimax [of empty_grid 0 2 1] alpha_beta_empty_grid_depth_2
  by auto

section \<open>The search: the move it returns\<close>

lemma get_possible_moves_one_column_left: "get_possible_moves one_column_left = [3]"
  by (simp add: get_possible_moves_def Let_def upt_rec one_column_left_def)

lemma check_victory_one_column_left: "check_victory one_column_left"
  by (simp add: check_victory_def one_column_left_def upt_rec)

text \<open>
  Claim C2. On a board with exactly one legal move, \<^verbatim>\<open>alpha_beta\<close> returns the evaluation
  of that board for the player and that move, for every depth, also 0, every bounds and
  either role, and whether or not the board holds a victory: the test comes first and
  the result is built without a recursive call.
\<close>

theorem alpha_beta_single_move:
  "get_possible_moves board = [m] \<Longrightarrow>
   alpha_beta board turn depth alpha beta p mx = Inr (Fin (eval board p), Some m)"
  by (simp add: alpha_beta.simps)

theorem alpha_beta_single_move_witness:
  "get_possible_moves one_column_left = [3] \<and> check_victory one_column_left
   \<and> alpha_beta one_column_left 0 0 NegInf PosInf 1 True
       = Inr (Fin (eval one_column_left 1), Some 3)"
  using alpha_beta_single_move [OF get_possible_moves_one_column_left, of 0 0 NegInf PosInf 1 True]
    get_possible_moves_one_column_left check_victory_one_column_left
  by simp

lemma child_has_moves:
  assumes "length (get_possible_moves g) \<noteq> 1" and "m \<in> set (get_possible_moves g)"
  shows "get_possible_moves (add_disk_loop g m q [0..<6]) \<noteq> []"
proof -
  from assms obtain a b rest where ab: "get_possible_moves g = a # b # rest"
    by (cases "get_possible_moves g"; cases "tl (get_possible_moves g)") auto
  with distinct_get_possible_moves [of g] have "a \<noteq> b" by auto
  then obtain m' where m': "m' \<in> set (get_possible_moves g)" "m' \<noteq> m"
    using ab by (cases "m = a") auto
  then have "m' \<in> set (get_possible_moves (add_disk_loop g m q [0..<6]))"
    unfolding set_get_possible_moves by (simp add: add_disk_loop_other)
  then show ?thesis by auto
qed

lemma max_loop_from_fin:
  assumes "\<forall>m\<in>set ms. m < 7 \<and>
             (\<forall>a b. \<exists>x mo. d (add_disk_loop board m p [0..<6]) a b = Inr (Fin x, mo))"
  shows "\<exists>y' b'. max_loop d board p alpha beta ms (Fin y) (Some b0) = Inr (Fin y', Some b')
           \<and> b' \<in> insert b0 (set ms)"
  using assms
proof (induction ms arbitrary: alpha y b0)
  case Nil
  then show ?case by simp
next
  case (Cons m ms)
  then have m: "m < 7" by simp
  from Cons.prems obtain x mo where
    x: "d (add_disk_loop board m p [0..<6]) alpha beta = Inr (Fin x, mo)" by fastforce
  from Cons.prems have ms: "\<forall>m\<in>set ms. m < 7 \<and>
             (\<forall>a b. \<exists>x mo. d (add_disk_loop board m p [0..<6]) a b = Inr (Fin x, mo))" by simp
  show ?case
  proof (cases "y < x")
    case True
    from Cons.IH [OF ms, of "max alpha (Fin x)" x m] True show ?thesis
      by (auto simp: add_disk_Inr [OF m] x Let_def Fin_less)
  next
    case False
    from Cons.IH [OF ms, of "max alpha (Fin x)" y b0] False show ?thesis
      by (auto simp: add_disk_Inr [OF m] x Let_def Fin_less)
  qed
qed

lemma max_loop_first:
  assumes "\<forall>m\<in>set (m0 # ms). m < 7 \<and>
             (\<forall>a b. \<exists>x mo. d (add_disk_loop board m p [0..<6]) a b = Inr (Fin x, mo))"
  shows "\<exists>y' b'. max_loop d board p alpha beta (m0 # ms) NegInf None = Inr (Fin y', Some b')
           \<and> b' \<in> set (m0 # ms)"
proof -
  from assms have m: "m0 < 7" by simp
  from assms obtain x mo where
    x: "d (add_disk_loop board m0 p [0..<6]) alpha beta = Inr (Fin x, mo)" by fastforce
  from assms have ms: "\<forall>m\<in>set ms. m < 7 \<and>
             (\<forall>a b. \<exists>x mo. d (add_disk_loop board m p [0..<6]) a b = Inr (Fin x, mo))" by simp
  have lt: "NegInf < Fin x" by (simp add: less_score_def)
  from max_loop_from_fin [OF ms, of "max alpha (Fin x)" beta x m0] show ?thesis
    by (auto simp: add_disk_Inr [OF m] x lt Let_def)
qed

lemma min_loop_from_fin:
  assumes "\<forall>m\<in>set ms. m < 7 \<and>
             (\<forall>a b. \<exists>x mo. d (add_disk_loop board m (3 - p) [0..<6]) a b = Inr (Fin x, mo))"
  shows "\<exists>y' b'. min_loop d board p alpha beta ms (Fin y) (Some b0) = Inr (Fin y', Some b')
           \<and> b' \<in> insert b0 (set ms)"
  using assms
proof (induction ms arbitrary: beta y b0)
  case Nil
  then show ?case by simp
next
  case (Cons m ms)
  then have m: "m < 7" by simp
  from Cons.prems obtain x mo where
    x: "d (add_disk_loop board m (3 - p) [0..<6]) alpha beta = Inr (Fin x, mo)" by fastforce
  from Cons.prems have ms: "\<forall>m\<in>set ms. m < 7 \<and>
             (\<forall>a b. \<exists>x mo. d (add_disk_loop board m (3 - p) [0..<6]) a b = Inr (Fin x, mo))"
    by simp
  show ?case
  proof (cases "x < y")
    case True
    from Cons.IH [OF ms, of "min beta (Fin x)" x m] True show ?thesis
      by (auto simp: add_disk_Inr [OF m] x Let_def Fin_less)
  next
    case False
    from Cons.IH [OF ms, of "min beta (Fin x)" y b0] False show ?thesis
      by (auto simp: add_disk_Inr [OF m] x Let_def Fin_less)
  qed
qed

lemma min_loop_first:
  assumes "\<forall>m\<in>set (m0 # ms). m < 7 \<and>
             (\<forall>a b. \<exists>x mo. d (add_disk_loop board m (3 - p) [0..<6]) a b = Inr (Fin x, mo))"
  shows "\<exists>y' b'. min_loop d board p alpha beta (m0 # ms) PosInf None = Inr (Fin y', Some b')
           \<and> b' \<in> set (m0 # ms)"
proof -
  from assms have m: "m0 < 7" by simp
  from assms obtain x mo where
    x: "d (add_disk_loop board m0 (3 - p) [0..<6]) alpha beta = Inr (Fin x, mo)" by fastforce
  from assms have ms: "\<forall>m\<in>set ms. m < 7 \<and>
             (\<forall>a b. \<exists>x mo. d (add_disk_loop board m (3 - p) [0..<6]) a b = Inr (Fin x, mo))"
    by simp
  have lt: "Fin x < PosInf" by (simp add: less_score_def)
  from min_loop_from_fin [OF ms, where beta = "min beta (Fin x)" and alpha = alpha
      and y = x and ?b0.0 = m0] show ?thesis
    by (auto simp: add_disk_Inr [OF m] x lt Let_def)
qed

text \<open>On a board with a legal move the search returns an integer score.\<close>

lemma alpha_beta_fin:
  "get_possible_moves board \<noteq> [] \<Longrightarrow>
   \<exists>x mo. alpha_beta board turn depth alpha beta p mx = Inr (Fin x, mo)"
proof (induction depth arbitrary: board alpha beta mx)
  case 0
  then show ?case by (simp add: alpha_beta.simps)
next
  case (Suc depth)
  show ?case
  proof (cases "length (get_possible_moves board) = 1 \<or> check_victory board")
    case True
    then show ?thesis by (auto simp: alpha_beta.simps)
  next
    case False
    from Suc.prems obtain m0 ms where ms: "get_possible_moves board = m0 # ms"
      by (cases "get_possible_moves board") auto
    have children: "\<forall>m\<in>set (m0 # ms). m < 7 \<and>
        (\<forall>a b. \<exists>x mo. alpha_beta (add_disk_loop board m q [0..<6]) turn depth a b p mx'
           = Inr (Fin x, mo))" for q mx'
      using get_possible_moves_less_7 [of board] child_has_moves [of board _ q] Suc.IH False
      unfolding ms [symmetric] by blast
    show ?thesis
    proof (cases mx)
      case True
      have "\<exists>y' b'. max_loop (\<lambda>cb a b. alpha_beta cb turn depth a b p False) board p
          alpha beta (m0 # ms) NegInf None = Inr (Fin y', Some b') \<and> b' \<in> set (m0 # ms)"
        by (rule max_loop_first [OF children])
      then show ?thesis
        using False True
        by (auto simp: alpha_beta.simps [of _ _ "Suc depth"] ms simp del: max_loop.simps)
    next
      case mn: False
      have "\<exists>y' b'. min_loop (\<lambda>cb a b. alpha_beta cb turn depth a b p True) board p
          alpha beta (m0 # ms) PosInf None = Inr (Fin y', Some b') \<and> b' \<in> set (m0 # ms)"
        by (rule min_loop_first [OF children])
      then show ?thesis
        using False mn
        by (auto simp: alpha_beta.simps [of _ _ "Suc depth"] ms simp del: min_loop.simps)
    qed
  qed
qed

lemma get_possible_moves_bottom_row_win:
  "get_possible_moves bottom_row_win = [3, 4, 2, 5, 1, 6, 0]"
  by (simp add: get_possible_moves_def Let_def upt_rec bottom_row_win_def empty_grid_def)

lemma get_possible_moves_empty_grid: "get_possible_moves empty_grid = [3, 4, 2, 5, 1, 6, 0]"
  by (simp add: get_possible_moves_def Let_def upt_rec empty_grid_def)

text \<open>
  Claim C3, as the code has it. The top-level search with a depth of at least 1 always
  returns and never raises. Its move is \<^verbatim>\<open>None\<close> exactly when the board has no legal
  move, or has more than one legal move and already holds a victory; otherwise the move
  is one of the legal moves. So on a board that is not full and holds no victory the move
  is not \<^verbatim>\<open>None\<close>.
\<close>

theorem alpha_beta_top_move:
  assumes "0 < depth"
  shows "\<exists>s mo. alpha_beta board turn depth NegInf PosInf p True = Inr (s, mo)
     \<and> (mo = None \<longleftrightarrow> get_possible_moves board = []
           \<or> (length (get_possible_moves board) \<noteq> 1 \<and> check_victory board))
     \<and> (\<forall>m. mo = Some m \<longrightarrow> m \<in> set (get_possible_moves board))"
proof -
  from assms obtain d where d: "depth = Suc d" by (cases depth) auto
  show ?thesis
  proof (cases "length (get_possible_moves board) = 1")
    case True
    then obtain m where "get_possible_moves board = [m]"
      by (cases "get_possible_moves board") auto
    then show ?thesis by (simp add: alpha_beta.simps)
  next
    case False
    show ?thesis
    proof (cases "check_victory board")
      case True
      with False show ?thesis by (simp add: alpha_beta.simps)
    next
      case nv: False
      show ?thesis
      proof (cases "get_possible_moves board")
        case Nil
        with nv show ?thesis by (simp add: alpha_beta.simps)
      next
        case (Cons m0 ms)
        have children: "\<forall>m\<in>set (m0 # ms). m < 7 \<and>
          (\<forall>a b. \<exists>x mo. alpha_beta (add_disk_loop board m p [0..<6]) turn d a b p False
             = Inr (Fin x, mo))"
          using get_possible_moves_less_7 [of board] child_has_moves [of board _ p]
            alpha_beta_fin False
          unfolding Cons [symmetric] by blast
        have "\<exists>y' b'. max_loop (\<lambda>cb a b. alpha_beta cb turn d a b p False) board p
            NegInf PosInf (m0 # ms) NegInf None = Inr (Fin y', Some b') \<and> b' \<in> set (m0 # ms)"
          by (rule max_loop_first [OF children])
        then show ?thesis
          using False nv d
          by (auto simp: alpha_beta.simps [of _ _ "Suc d"] Cons simp del: max_loop.simps)
      qed
    qed
  qed
qed

theorem alpha_beta_top_move_witness:
  "(0::nat) < 1 \<and> get_possible_moves empty_grid \<noteq> [] \<and> \<not> check_victory empty_grid
   \<and> (\<exists>s m. alpha_beta empty_grid 0 1 NegInf PosInf 1 True = Inr (s, Some m)
         \<and> m \<in> set (get_possible_moves empty_grid))"
proof -
  have h: "(0::nat) < 1" by simp
  from alpha_beta_top_move [OF h, of empty_grid 0 1] obtain s mo where
    r: "alpha_beta empty_grid 0 1 NegInf PosInf 1 True = Inr (s, mo)"
    and n: "mo = None \<longleftrightarrow> get_possible_moves empty_grid = []
           \<or> (length (get_possible_moves empty_grid) \<noteq> 1 \<and> check_victory empty_grid)"
    and m: "\<forall>m. mo = Some m \<longrightarrow> m \<in> set (get_possible_moves empty_grid)" by blast
  have e: "get_possible_moves empty_grid \<noteq> []"
    by (simp add: get_possible_moves_empty_grid)
  from n e check_victory_empty_grid have "mo \<noteq> None" by simp
  then obtain m' where "mo = Some m'" by auto
  with r m have "\<exists>s m. alpha_beta empty_grid 0 1 NegInf PosInf 1 True = Inr (s, Some m)
         \<and> m \<in> set (get_possible_moves empty_grid)" by blast
  with h e check_victory_empty_grid show ?thesis by blast
qed

text \<open>
  The claim as stated, that the move is not \<^verbatim>\<open>None\<close> on every board that is not full,
  is false on the board where player 1 holds four cells of the bottom row: seven columns
  are open, and the search at depth 1 returns the evaluation and no move.
\<close>

theorem alpha_beta_won_board_move_none:
  "get_possible_moves bottom_row_win = [3, 4, 2, 5, 1, 6, 0]
   \<and> bottom_row_win 3 5 = 0
   \<and> alpha_beta bottom_row_win 0 1 NegInf PosInf 1 True = Inr (Fin 10039, None)"
  using get_possible_moves_bottom_row_win check_victory_bottom_row_win eval_bottom_row_win
  by (simp add: alpha_beta.simps) (simp add: bottom_row_win_def empty_grid_def)

section \<open>Boards that share a grid, and copies that do not\<close>

lemma grid_ref_allocated: "wf_store s \<Longrightarrow> grid_ref s b < next_array s"
  by (auto simp: wf_store_def grid_ref_def split: option.splits)

lemma Board_new_bare:
  "instance_grid (snd (Board_new s)) (fst (Board_new s)) = None
   \<and> arrays (snd (Board_new s)) = arrays s
   \<and> class_grid (snd (Board_new s)) = class_grid s"
  by (simp add: Board_new_def)

lemma bare_boards_share:
  assumes "instance_grid s b1 = None" and "instance_grid s b2 = None"
    and "column_filled (self_grid s b1) c = Inr False" and "p = 1 \<or> p = 2"
  shows "\<exists>s' g'. Board_add_disk s b1 c p = Inr s' \<and> add_disk (self_grid s b1) c p = Inr g'
      \<and> g' \<noteq> self_grid s b2 \<and> self_grid s' b1 = g' \<and> self_grid s' b2 = g'
      \<and> instance_grid s' = instance_grid s
      \<and> Board_get_possible_moves s' b2 = get_possible_moves g'
      \<and> Board_eval s' b2 q = eval g' q
      \<and> Board_check_victory s' b2 = check_victory g'"
proof -
  from add_disk_changes [OF assms(3,4)] obtain g' where
    g': "add_disk (self_grid s b1) c p = Inr g'" "g' \<noteq> self_grid s b1" by blast
  have same: "self_grid s b2 = self_grid s b1"
    using assms(1,2) by (simp add: self_grid_def grid_ref_def)
  show ?thesis
    using g' same assms(1,2)
    by (simp add: Board_add_disk_def self_grid_def grid_ref_def Board_get_possible_moves_def
        Board_eval_def Board_check_victory_def)
qed

lemma copy_independent:
  assumes "wf_store s" and "b < next_board s"
    and "column_filled (self_grid s b) c = Inr False" and "p = 1 \<or> p = 2"
  shows "\<exists>nb s1 s2 s3 g'. Board_copy s b = (nb, s1)
      \<and> instance_grid s1 nb = Some (next_array s) \<and> nb \<noteq> b \<and> wf_store s1
      \<and> self_grid s1 nb = self_grid s b \<and> self_grid s1 b = self_grid s b
      \<and> add_disk (self_grid s b) c p = Inr g' \<and> g' \<noteq> self_grid s b
      \<and> Board_add_disk s1 nb c p = Inr s2
      \<and> self_grid s2 nb = g' \<and> self_grid s2 b = self_grid s b
      \<and> Board_add_disk s1 b c p = Inr s3
      \<and> self_grid s3 b = g' \<and> self_grid s3 nb = self_grid s b"
proof -
  from add_disk_changes [OF assms(3,4)] obtain g' where
    g': "add_disk (self_grid s b) c p = Inr g'" "g' \<noteq> self_grid s b" by blast
  define nb where "nb = next_board s"
  define a where "a = next_array s"
  define s1 where "s1 = s\<lparr>arrays := (arrays s)(a := self_grid s b), next_array := Suc a,
      instance_grid := (instance_grid s)(nb := Some a), next_board := Suc nb\<rparr>"
  have nb: "nb \<noteq> b" using assms(2) by (simp add: nb_def)
  have ref: "grid_ref s b \<noteq> a" using grid_ref_allocated [OF assms(1), of b] by (simp add: a_def)
  have ref1: "grid_ref s1 b = grid_ref s b" "grid_ref s1 nb = a"
    using nb by (simp_all add: s1_def grid_ref_def split: option.splits)
  have copy: "Board_copy s b = (nb, s1)"
    using nb by (simp add: Board_copy_def Board_new_def Let_def s1_def nb_def a_def
        self_grid_def grid_ref_def split: option.splits)
  have wf1: "wf_store s1"
    using assms(1) by (auto simp: wf_store_def s1_def a_def less_Suc_eq)
  have g1: "self_grid s1 nb = self_grid s b" "self_grid s1 b = self_grid s b"
    using ref unfolding self_grid_def ref1 by (simp_all add: s1_def self_grid_def)
  define s2 where "s2 = s1\<lparr>arrays := (arrays s1)(a := g')\<rparr>"
  define s3 where "s3 = s1\<lparr>arrays := (arrays s1)(grid_ref s b := g')\<rparr>"
  have add2: "Board_add_disk s1 nb c p = Inr s2"
    by (simp add: Board_add_disk_def g1 g' ref1 s2_def)
  have add3: "Board_add_disk s1 b c p = Inr s3"
    by (simp add: Board_add_disk_def g1 g' ref1 s3_def)
  have r2: "grid_ref s2 b = grid_ref s b" "grid_ref s2 nb = a"
    using ref1 by (simp_all add: s2_def grid_ref_def split: option.splits)
  have r3: "grid_ref s3 b = grid_ref s b" "grid_ref s3 nb = a"
    using ref1 by (simp_all add: s3_def grid_ref_def split: option.splits)
  have g2: "self_grid s2 nb = g'" "self_grid s2 b = self_grid s b"
    using ref unfolding self_grid_def r2 by (simp_all add: s2_def s1_def self_grid_def)
  have g3: "self_grid s3 b = g'" "self_grid s3 nb = self_grid s b"
    using ref unfolding self_grid_def r3 by (simp_all add: s3_def s1_def self_grid_def)
  have "instance_grid s1 nb = Some (next_array s)" by (simp add: s1_def a_def)
  with copy nb wf1 g1 g' add2 add3 g2 g3 show ?thesis by blast
qed

lemma two_boards_eq:
  "two_boards = \<lparr>arrays = (\<lambda>a. empty_grid), next_array = 1, class_grid = 0,
      instance_grid = (\<lambda>b. None), next_board = 2\<rparr>"
  by (simp add: two_boards_def Board_new_def initial_store_def fun_eq_iff)

text \<open>
  Claim C10. \<^verbatim>\<open>Board()\<close> gives the new object no grid of its own. For two boards
  without a grid of their own and a legal \<^verbatim>\<open>add_disk(c, p)\<close> on the first, the second
  reads the changed grid: its grid is the new one, which differs from the one it read
  before, and its \<^verbatim>\<open>get_possible_moves\<close>, \<^verbatim>\<open>eval\<close> and \<^verbatim>\<open>check_victory\<close> are those of
  the new grid. \<^verbatim>\<open>copy\<close> gives its result a grid of its own at a new address with the
  same cells, and afterwards \<^verbatim>\<open>add_disk\<close> on the copy leaves the original's grid as it
  was, and \<^verbatim>\<open>add_disk\<close> on the original leaves the copy's.
\<close>

theorem board_grid_shared_copy_fresh:
  assumes "wf_store s" and "b1 < next_board s"
    and "instance_grid s b1 = None" and "instance_grid s b2 = None"
    and "column_filled (self_grid s b1) c = Inr False" and "p = 1 \<or> p = 2"
  shows "instance_grid (snd (Board_new s)) (fst (Board_new s)) = None
    \<and> (\<exists>s' g'. Board_add_disk s b1 c p = Inr s' \<and> add_disk (self_grid s b1) c p = Inr g'
      \<and> g' \<noteq> self_grid s b2 \<and> self_grid s' b1 = g' \<and> self_grid s' b2 = g'
      \<and> instance_grid s' = instance_grid s
      \<and> Board_get_possible_moves s' b2 = get_possible_moves g'
      \<and> Board_eval s' b2 q = eval g' q
      \<and> Board_check_victory s' b2 = check_victory g')
    \<and> (\<exists>nb s1 s2 s3 g'. Board_copy s b1 = (nb, s1)
      \<and> instance_grid s1 nb = Some (next_array s) \<and> nb \<noteq> b1 \<and> wf_store s1
      \<and> self_grid s1 nb = self_grid s b1 \<and> self_grid s1 b1 = self_grid s b1
      \<and> add_disk (self_grid s b1) c p = Inr g' \<and> g' \<noteq> self_grid s b1
      \<and> Board_add_disk s1 nb c p = Inr s2
      \<and> self_grid s2 nb = g' \<and> self_grid s2 b1 = self_grid s b1
      \<and> Board_add_disk s1 b1 c p = Inr s3
      \<and> self_grid s3 b1 = g' \<and> self_grid s3 nb = self_grid s b1)"
  using Board_new_bare [of s] bare_boards_share [OF assms(3,4,5,6), of q]
    copy_independent [OF assms(1,2,5,6)]
  by blast

theorem board_grid_shared_copy_fresh_witness:
  "wf_store two_boards \<and> 0 < next_board two_boards
   \<and> instance_grid two_boards 0 = None \<and> instance_grid two_boards 1 = None
   \<and> column_filled (self_grid two_boards 0) 3 = Inr False \<and> ((1::int) = 1 \<or> (1::int) = 2)
   \<and> (\<exists>s' g'. Board_add_disk two_boards 0 3 1 = Inr s'
         \<and> add_disk (self_grid two_boards 0) 3 1 = Inr g'
         \<and> g' \<noteq> self_grid two_boards 1 \<and> self_grid s' 1 = g'
         \<and> Board_eval s' 1 1 = eval g' 1)
   \<and> (\<exists>nb s1 s2 g'. Board_copy two_boards 0 = (nb, s1)
         \<and> add_disk (self_grid two_boards 0) 3 1 = Inr g'
         \<and> Board_add_disk s1 nb 3 1 = Inr s2
         \<and> self_grid s2 nb = g' \<and> self_grid s2 0 = self_grid two_boards 0)"
proof -
  have h1: "wf_store two_boards" by (simp add: two_boards_eq wf_store_def)
  have h2: "0 < next_board two_boards" by (simp add: two_boards_eq)
  have h3: "instance_grid two_boards 0 = None" by (simp add: two_boards_eq)
  have h4: "instance_grid two_boards 1 = None" by (simp add: two_boards_eq)
  have h5: "column_filled (self_grid two_boards 0) 3 = Inr False"
    by (simp add: two_boards_eq self_grid_def grid_ref_def column_filled_def empty_grid_def)
  have h6: "(1::int) = 1 \<or> (1::int) = 2" by simp
  from board_grid_shared_copy_fresh [OF h1 h2 h3 h4 h5 h6, of 1] h1 h2 h3 h4 h5 h6
  show ?thesis by blast
qed

end
